theory Spec2Isabelle
  imports Main
begin

section \<open>Data model\<close>

text \<open>
  One part-of-speech annotation of a section: the dictionary with the keys
  \<^verbatim>\<open>text\<close>, \<^verbatim>\<open>pos\<close>, \<^verbatim>\<open>start\<close> and \<^verbatim>\<open>end\<close> that
  \<^verbatim>\<open>_get_proper_names\<close> reads. Offsets are Python integers. A character of a
  \<open>string\<close> stands for one code point of the Python string.
\<close>

record token =
  tok_text :: string
  tok_pos :: string
  tok_start :: int
  tok_end :: int

text \<open>
  The local variables of \<^verbatim>\<open>_get_proper_names\<close>. \<^verbatim>\<open>start\<close> and \<^verbatim>\<open>end\<close> are
  \<^verbatim>\<open>None\<close> until a span has been opened, so they and the components of the appended tuples
  are optional integers.
\<close>

record gpn_state =
  cur_start :: "int option"
  cur_end :: "int option"
  is_middle :: bool
  name_indices :: "(int option \<times> int option) list"

section \<open>The proper-name span extractor (\<^verbatim>\<open>_get_proper_names\<close>)\<close>

definition is_propn :: "token \<Rightarrow> bool" where
  "is_propn tok = (tok_pos tok = ''PROPN'')"

text \<open>
  The test \<^verbatim>\<open>not self.rare_names or pos['text'] in self.rare_names\<close>. The attribute is
  \<^verbatim>\<open>None\<close> or a set of strings; Python's \<^verbatim>\<open>not\<close> is true of \<^verbatim>\<open>None\<close> and of the empty
  set, and the membership test is only evaluated otherwise.
\<close>

definition may_open :: "string set option \<Rightarrow> token \<Rightarrow> bool" where
  "may_open rare_names tok =
     (case rare_names of
        None \<Rightarrow> True
      | Some S \<Rightarrow> S = {} \<or> tok_text tok \<in> S)"

text \<open>The body of the \<^verbatim>\<open>for pos in parts_of_speech\<close> loop, branch by branch.\<close>

definition gpn_step :: "string set option \<Rightarrow> gpn_state \<Rightarrow> token \<Rightarrow> gpn_state" where
  "gpn_step rare_names st tok =
     (if is_propn tok \<and> \<not> is_middle st then
        (if may_open rare_names tok then
           st\<lparr>cur_start := Some (tok_start tok),
              cur_end := Some (tok_end tok),
              is_middle := True\<rparr>
         else st)
      else if is_propn tok \<and> is_middle st then
        st\<lparr>cur_end := Some (tok_end tok)\<rparr>
      else if \<not> is_propn tok \<and> is_middle st then
        st\<lparr>name_indices := name_indices st @ [(cur_start st, cur_end st)],
           is_middle := False\<rparr>
      else st)"

definition gpn_init :: gpn_state where
  "gpn_init = \<lparr>cur_start = None, cur_end = None, is_middle = False, name_indices = []\<rparr>"

definition gpn_run :: "string set option \<Rightarrow> token list \<Rightarrow> gpn_state" where
  "gpn_run rare_names toks = foldl (gpn_step rare_names) gpn_init toks"

text \<open>The argument is the \<^verbatim>\<open>parts_of_speech\<close> list of the section.\<close>

definition get_proper_names ::
  "string set option \<Rightarrow> token list \<Rightarrow> (int option \<times> int option) list" where
  "get_proper_names rare_names toks = name_indices (gpn_run rare_names toks)"

text \<open>
  A second description of the same scan, following the specification's words: the only state
  is the span that is currently open, if any. It is compared with the loop above in
  \<open>gpn_foldl_scan\<close>.
\<close>

fun scan :: "string set option \<Rightarrow> (int \<times> int) option \<Rightarrow> token list \<Rightarrow> (int \<times> int) list" where
  "scan rn cur [] = []"
| "scan rn None (t # ts) =
     (if is_propn t \<and> may_open rn t then scan rn (Some (tok_start t, tok_end t)) ts
      else scan rn None ts)"
| "scan rn (Some (s, e)) (t # ts) =
     (if is_propn t then scan rn (Some (s, tok_end t)) ts
      else (s, e) # scan rn None ts)"

definition some_span :: "int \<times> int \<Rightarrow> int option \<times> int option" where
  "some_span p = (Some (fst p), Some (snd p))"






section \<open>The offset flattener (\<^verbatim>\<open>_flatten_name_indices\<close>)\<close>

text \<open>
  The outer loop runs over \<^verbatim>\<open>zip(paragraphs, indices)\<close> with the running \<^verbatim>\<open>offset\<close>
  and the list \<^verbatim>\<open>new_indices\<close>; the inner loop appends one shifted pair per local span.
\<close>

fun flatten_loop ::
  "int \<Rightarrow> (string \<times> (int \<times> int) list) list \<Rightarrow> (int \<times> int) list \<Rightarrow> (int \<times> int) list" where
  "flatten_loop offset [] new_indices = new_indices"
| "flatten_loop offset ((par, idx_list) # rest) new_indices =
     flatten_loop (offset + int (length par) + 1) rest
       (foldl (\<lambda>acc (start, end). acc @ [(start + offset, end + offset)]) new_indices idx_list)"

definition flatten_name_indices ::
  "string list \<Rightarrow> (int \<times> int) list list \<Rightarrow> (int \<times> int) list" where
  "flatten_name_indices paragraphs indices = flatten_loop 0 (zip paragraphs indices) []"

text \<open>The offsets as the specification gives them: \<open>offset\<^sub>0 = 0\<close> and
  \<open>offset\<^bsub>i+1\<^esub> = offset\<^sub>i + len(paragraph\<^sub>i) + 1\<close>.\<close>

primrec offset_at :: "string list \<Rightarrow> nat \<Rightarrow> int" where
  "offset_at paragraphs 0 = 0"
| "offset_at paragraphs (Suc i) = offset_at paragraphs i + int (length (paragraphs ! i)) + 1"

definition shift_span :: "int \<Rightarrow> int \<times> int \<Rightarrow> int \<times> int" where
  "shift_span offset p = (fst p + offset, snd p + offset)"



text \<open>A token with the given surface text, tag and character span.\<close>

definition mk_token :: "string \<Rightarrow> string \<Rightarrow> int \<Rightarrow> int \<Rightarrow> token" where
  "mk_token text tag s e = \<lparr>tok_text = text, tok_pos = tag, tok_start = s, tok_end = e\<rparr>"

section \<open>Python values used by the readers\<close>

datatype error = ValueError | IndexError | KeyError | TypeError

text \<open>List indexing as Python does it: a negative index counts from the end, and an index
  outside the list raises \<^verbatim>\<open>IndexError\<close>.\<close>

definition py_index :: "'a list \<Rightarrow> int \<Rightarrow> error + 'a" where
  "py_index xs i =
     (if 0 \<le> i \<and> i < int (length xs) then Inr (xs ! nat i)
      else if - int (length xs) \<le> i \<and> i < 0 then Inr (xs ! nat (int (length xs) + i))
      else Inl IndexError)"

text \<open>\<^verbatim>\<open>str.strip()\<close> removes leading and trailing whitespace; below code point 256 Python's
  whitespace characters are 9 to 13, 28 to 32, 133 and 160.\<close>

definition is_space :: "char \<Rightarrow> bool" where
  "is_space c =
     (let n = (of_char c :: nat)
      in (9 \<le> n \<and> n \<le> 13) \<or> (28 \<le> n \<and> n \<le> 32) \<or> n = 133 \<or> n = 160)"

definition strip :: "string \<Rightarrow> string" where
  "strip s = rev (dropWhile is_space (rev (dropWhile is_space s)))"

text \<open>\<^verbatim>\<open>os.path.join\<close> of two components on a POSIX system.\<close>

definition path_join :: "string \<Rightarrow> string \<Rightarrow> string" where
  "path_join a b =
     (if b \<noteq> [] \<and> hd b = CHR ''/'' then b
      else if a = [] \<or> last a = CHR ''/'' then a @ b
      else a @ ''/'' @ b)"

section \<open>The rare-name set (\<^verbatim>\<open>NYTimesNamesCopyReader.__init__\<close>)\<close>

text \<open>
  A \<^verbatim>\<open>collections.Counter\<close> is a dictionary from tokens to counts, kept as an association
  list. A missing key counts 0, and the sum of two counters keeps the positive sums only.
\<close>

type_synonym counter = "(string \<times> int) list"

definition counter_get :: "counter \<Rightarrow> string \<Rightarrow> int" where
  "counter_get c w = (case map_of c w of None \<Rightarrow> 0 | Some n \<Rightarrow> n)"

definition counter_add :: "counter \<Rightarrow> counter \<Rightarrow> counter" where
  "counter_add a b =
     filter (\<lambda>(w, n). n > 0) (map (\<lambda>(w, n). (w, n + counter_get b w)) a) @
     filter (\<lambda>(w, n). w \<notin> fst ` set a \<and> n > 0) b"

record counters =
  context_counter :: counter
  caption_counter :: counter

text \<open>The argument is the unpickled content of \<^verbatim>\<open>name_counters_path\<close>, or \<^verbatim>\<open>None\<close> when no
  path is given.\<close>

definition init_rare_names :: "counters option \<Rightarrow> int \<Rightarrow> string set option" where
  "init_rare_names name_counters threshold =
     (case name_counters of
        None \<Rightarrow> None
      | Some cs \<Rightarrow>
          (let counter = counter_add (context_counter cs) (caption_counter cs)
           in Some (set (filter (\<lambda>w. counter_get counter w < threshold) (map fst counter)))))"

section \<open>Articles and the reader's configuration\<close>

record article_section =
  sec_type :: string
  sec_text :: string
  sec_hash :: string
  parts_of_speech :: "token list"

record headline =
  main :: "string option"
  headline_parts_of_speech :: "token list"

record article =
  parsed_section :: "article_section list"
  image_positions :: "nat list"
  art_headline :: headline
  web_url :: string

text \<open>
  \<open>count_tokens\<close> stands for \<^verbatim>\<open>len(self.to_token_ids(text))\<close>, the size of the BPE
  encoding, and \<open>image_open\<close> for \<^verbatim>\<open>Image.open\<close>, which yields \<open>None\<close> where the call raises
  \<^verbatim>\<open>FileNotFoundError\<close> or \<^verbatim>\<open>OSError\<close>.
\<close>

record 'img reader =
  rare_names :: "string set option"
  image_dir :: string
  count_tokens :: "string \<Rightarrow> nat"
  image_open :: "string \<Rightarrow> 'img option"

text \<open>
  What \<^verbatim>\<open>Image.open\<close> returns is a lazy handle: the call identifies the file from its header,
  and the pixel data is decoded only when the image is loaded, which neither reader does before
  it yields. A handle records the path and whether that later decoding succeeds.
\<close>

record lazy_image =
  li_path :: string
  li_decodable :: bool

type_synonym names = "(int option \<times> int option) list"

section \<open>The context window builder (\<^verbatim>\<open>_read\<close>, lines 116 to 161)\<close>

definition is_paragraph :: "article_section \<Rightarrow> bool" where
  "is_paragraph s = (sec_type s = ''paragraph'')"

text \<open>The loop \<^verbatim>\<open>for k, section in enumerate(sections)\<close> with its \<^verbatim>\<open>break\<close>: the
  index and the section of the first paragraph, counting from \<open>n\<close>.\<close>

fun find_paragraph :: "article_section list \<Rightarrow> nat \<Rightarrow> (nat \<times> article_section) option" where
  "find_paragraph [] n = None"
| "find_paragraph (s # ss) n =
     (if is_paragraph s then Some (n, s) else find_paragraph ss (Suc n))"

text \<open>The variables that the \<^verbatim>\<open>while True\<close> loop changes.\<close>

record window =
  w_i :: int
  w_j :: int
  before :: "string list"
  before_names :: "names list"
  after :: "string list"
  after_names :: "names list"
  n_words :: nat

text \<open>The first half of the loop body: \<^verbatim>\<open>sections[i]\<close> is read only when \<^verbatim>\<open>i > k\<close>.\<close>

definition step_backward ::
  "string set option \<Rightarrow> (string \<Rightarrow> nat) \<Rightarrow> article_section list \<Rightarrow> int \<Rightarrow> window \<Rightarrow> error + window" where
  "step_backward rn cnt sections k st =
     (if w_i st > k then
        (case py_index sections (w_i st) of
           Inl e \<Rightarrow> Inl e
         | Inr s \<Rightarrow>
             if is_paragraph s then
               Inr (st\<lparr>before := sec_text s # before st,
                       before_names := get_proper_names rn (parts_of_speech s) # before_names st,
                       n_words := n_words st + cnt (sec_text s),
                       w_i := w_i st - 1\<rparr>)
             else Inr (st\<lparr>w_i := w_i st - 1\<rparr>))
      else Inr (st\<lparr>w_i := w_i st - 1\<rparr>))"

text \<open>The second half: \<^verbatim>\<open>sections[j]\<close> is read only when \<^verbatim>\<open>k < j < len(sections)\<close>.\<close>

definition step_forward ::
  "string set option \<Rightarrow> (string \<Rightarrow> nat) \<Rightarrow> article_section list \<Rightarrow> int \<Rightarrow> window \<Rightarrow> error + window" where
  "step_forward rn cnt sections k st =
     (if k < w_j st \<and> w_j st < int (length sections) then
        (case py_index sections (w_j st) of
           Inl e \<Rightarrow> Inl e
         | Inr s \<Rightarrow>
             if is_paragraph s then
               Inr (st\<lparr>after := after st @ [sec_text s],
                       after_names := after_names st @ [get_proper_names rn (parts_of_speech s)],
                       n_words := n_words st + cnt (sec_text s),
                       w_j := w_j st + 1\<rparr>)
             else Inr (st\<lparr>w_j := w_j st + 1\<rparr>))
      else Inr (st\<lparr>w_j := w_j st + 1\<rparr>))"

definition expand_body ::
  "string set option \<Rightarrow> (string \<Rightarrow> nat) \<Rightarrow> article_section list \<Rightarrow> int \<Rightarrow> window \<Rightarrow> error + window" where
  "expand_body rn cnt sections k st =
     (case step_backward rn cnt sections k st of
        Inl e \<Rightarrow> Inl e
      | Inr st' \<Rightarrow> step_forward rn cnt sections k st')"

text \<open>The test \<^verbatim>\<open>n_words >= 510 or (i <= k and j >= len(sections))\<close> that ends the loop.\<close>

definition expand_done :: "article_section list \<Rightarrow> int \<Rightarrow> window \<Rightarrow> bool" where
  "expand_done sections k st =
     (n_words st \<ge> 510 \<or> (w_i st \<le> k \<and> w_j st \<ge> int (length sections)))"

text \<open>The \<^verbatim>\<open>while True\<close> loop: the body runs, then the test decides.\<close>

function expand ::
  "string set option \<Rightarrow> (string \<Rightarrow> nat) \<Rightarrow> article_section list \<Rightarrow> int \<Rightarrow> window \<Rightarrow> error + window" where
  "expand rn cnt sections k st =
     (case expand_body rn cnt sections k st of
        Inl e \<Rightarrow> Inl e
      | Inr st' \<Rightarrow> if expand_done sections k st' then Inr st' else expand rn cnt sections k st')"
  by pat_completeness auto
termination
  by (relation "measure (\<lambda>(rn, cnt, sections, k, st).
        nat (w_i st - k) + nat (int (length sections) - w_j st))")
    (auto simp add: expand_body_def step_backward_def step_forward_def expand_done_def
       split: sum.splits if_splits)

declare expand.simps [simp del]

text \<open>The number of times the loop body runs, by the same recursion.\<close>

function expand_iterations ::
  "string set option \<Rightarrow> (string \<Rightarrow> nat) \<Rightarrow> article_section list \<Rightarrow> int \<Rightarrow> window \<Rightarrow> nat" where
  "expand_iterations rn cnt sections k st =
     (case expand_body rn cnt sections k st of
        Inl e \<Rightarrow> 1
      | Inr st' \<Rightarrow>
          if expand_done sections k st' then 1
          else 1 + expand_iterations rn cnt sections k st')"
  by pat_completeness auto
termination
  by (relation "measure (\<lambda>(rn, cnt, sections, k, st).
        nat (w_i st - k) + nat (int (length sections) - w_j st))")
    (auto simp add: expand_body_def step_backward_def step_forward_def expand_done_def
       split: sum.splits if_splits)

declare expand_iterations.simps [simp del]

definition headline_title :: "article \<Rightarrow> string" where
  "headline_title art =
     (case main (art_headline art) of Some m \<Rightarrow> strip m | None \<Rightarrow> [])"

text \<open>The window's variables when the loop is entered for the image at \<open>pos\<close>.\<close>

definition window_init :: "nat \<Rightarrow> nat \<Rightarrow> window" where
  "window_init pos n =
     \<lparr>w_i = int pos - 1, w_j = int pos + 1, before = [], before_names = [],
      after = [], after_names = [], n_words = n\<rparr>"

text \<open>What the builder has computed when the loop ends: the headline and anchor entries, the
  anchor index \<open>k\<close>, the caption and the final loop variables.\<close>

record context_window =
  cw_paragraphs :: "string list"
  cw_paragraph_names :: "names list"
  cw_k :: int
  cw_caption :: string
  cw_window :: window

text \<open>
  Lines 116 to 161 for one image position. The result \<open>Inr None\<close> is the \<^verbatim>\<open>continue\<close> on an
  empty caption. When no section is a paragraph the \<^verbatim>\<open>for\<close> loop leaves \<open>k\<close> at the last
  index; the section list is not empty there, because \<^verbatim>\<open>sections[pos]\<close> has been read.
\<close>

definition build_context ::
  "string set option \<Rightarrow> (string \<Rightarrow> nat) \<Rightarrow> article \<Rightarrow> nat \<Rightarrow> error + context_window option" where
  "build_context rn cnt art pos =
     (let sections = parsed_section art;
          title = headline_title art;
          paragraphs = (if title \<noteq> [] then [title] else []);
          paragraph_names =
            (if title \<noteq> []
             then [get_proper_names rn (headline_parts_of_speech (art_headline art))] else []);
          n = (if title \<noteq> [] then cnt title else 0)
      in case py_index sections (int pos) of
           Inl e \<Rightarrow> Inl e
         | Inr image_section \<Rightarrow>
             (let caption = strip (sec_text image_section)
              in if caption = [] then Inr None
                 else
                   (let (k, paragraphs', paragraph_names') =
                          (case find_paragraph sections 0 of
                             Some (k, s) \<Rightarrow>
                               (int k, paragraphs @ [sec_text s],
                                paragraph_names @ [get_proper_names rn (parts_of_speech s)])
                           | None \<Rightarrow> (int (length sections) - 1, paragraphs, paragraph_names))
                    in case expand rn cnt sections k (window_init pos n) of
                         Inl e \<Rightarrow> Inl e
                       | Inr st \<Rightarrow>
                           Inr (Some \<lparr>cw_paragraphs = paragraphs',
                                      cw_paragraph_names = paragraph_names',
                                      cw_k = k, cw_caption = caption, cw_window = st\<rparr>))))"

section \<open>The split iterator of the New York Times reader (\<^verbatim>\<open>_read\<close>)\<close>

text \<open>The arguments handed to \<^verbatim>\<open>article_to_instance\<close>, with the per-paragraph name lists as
  they are assembled on line 173 (they are flattened by \<^verbatim>\<open>_flatten_name_indices\<close> next).\<close>

record 'img nyt_instance =
  inst_paragraphs :: "string list"
  inst_name_indices :: "names list"
  inst_caption_name_indices :: names
  inst_image :: 'img
  inst_caption :: string
  inst_image_path :: string
  inst_web_url :: string
  inst_pos :: nat

definition image_path_of :: "'img reader \<Rightarrow> article_section \<Rightarrow> string" where
  "image_path_of rd s = path_join (image_dir rd) (sec_hash s @ ''.jpg'')"

text \<open>The body of \<^verbatim>\<open>for pos in image_positions\<close>: \<open>Inr None\<close> is a \<^verbatim>\<open>continue\<close>,
  \<open>Inr (Some inst)\<close> a \<^verbatim>\<open>yield\<close>, \<open>Inl e\<close> an exception that leaves the generator.\<close>

definition read_pos :: "'img reader \<Rightarrow> article \<Rightarrow> nat \<Rightarrow> error + 'img nyt_instance option" where
  "read_pos rd art pos =
     (case build_context (rare_names rd) (count_tokens rd) art pos of
        Inl e \<Rightarrow> Inl e
      | Inr None \<Rightarrow> Inr None
      | Inr (Some cw) \<Rightarrow>
          (case py_index (parsed_section art) (int pos) of
             Inl e \<Rightarrow> Inl e
           | Inr image_section \<Rightarrow>
               (let image_path = image_path_of rd image_section
                in case image_open rd image_path of
                     None \<Rightarrow> Inr None
                   | Some img \<Rightarrow>
                       Inr (Some
                         \<lparr>inst_paragraphs =
                            cw_paragraphs cw @ before (cw_window cw) @ after (cw_window cw),
                          inst_name_indices =
                            cw_paragraph_names cw @ before_names (cw_window cw) @
                            after_names (cw_window cw),
                          inst_caption_name_indices =
                            get_proper_names (rare_names rd) (parts_of_speech image_section),
                          inst_image = img,
                          inst_caption = cw_caption cw,
                          inst_image_path = image_path,
                          inst_web_url = web_url art,
                          inst_pos = pos\<rparr>))))"

text \<open>A generator's run is the list of instances it yields and the exception that ends it, if
  any.\<close>

fun read_positions ::
  "'img reader \<Rightarrow> article \<Rightarrow> nat list \<Rightarrow> 'img nyt_instance list \<times> error option" where
  "read_positions rd art [] = ([], None)"
| "read_positions rd art (pos # rest) =
     (case read_pos rd art pos of
        Inl e \<Rightarrow> ([], Some e)
      | Inr None \<Rightarrow> read_positions rd art rest
      | Inr (Some inst) \<Rightarrow>
          (let (insts, err) = read_positions rd art rest in (inst # insts, err)))"

fun read_articles ::
  "'img reader \<Rightarrow> article list \<Rightarrow> 'img nyt_instance list \<times> error option" where
  "read_articles rd [] = ([], None)"
| "read_articles rd (art # rest) =
     (case read_positions rd art (image_positions art) of
        (insts, Some e) \<Rightarrow> (insts, Some e)
      | (insts, None) \<Rightarrow>
          (let (insts', err) = read_articles rd rest in (insts @ insts', err)))"

type_synonym date = "nat \<times> nat \<times> nat"

definition split_range :: "string \<Rightarrow> (date \<times> date) option" where
  "split_range split =
     (if split = ''train'' then Some ((2000, 1, 1), (2019, 5, 1))
      else if split = ''valid'' then Some ((2019, 5, 1), (2019, 6, 1))
      else if split = ''test'' then Some ((2019, 6, 1), (2019, 9, 1))
      else None)"

text \<open>\<open>find_articles\<close> stands for the database query: the parsed English articles with an
  image that were published in the given range.\<close>

definition nytimes_read ::
  "'img reader \<Rightarrow> (date \<times> date \<Rightarrow> article list) \<Rightarrow> string \<Rightarrow>
     'img nyt_instance list \<times> error option" where
  "nytimes_read rd find_articles split =
     (case split_range split of
        None \<Rightarrow> ([], Some ValueError)
      | Some dates \<Rightarrow> read_articles rd (find_articles dates))"

section \<open>The split iterator of the Good News reader (\<^verbatim>\<open>RareGoodNewsReader._read\<close>)\<close>

record gn_sample =
  sample_id :: string
  sample_article_id :: string
  sample_image_index :: string

record gn_article =
  gn_context :: string
  gn_images :: "string \<rightharpoonup> string"
  gn_web_url :: string

record 'img gn_reader =
  gn_image_dir :: string
  gn_image_open :: "string \<Rightarrow> 'img option"
  gn_eval_limit :: nat

record 'img gn_instance =
  gni_context :: string
  gni_caption :: string
  gni_image :: 'img
  gni_image_path :: string
  gni_web_url :: string

text \<open>\<^verbatim>\<open>article_to_instance\<close>: subscripting a missing article raises \<^verbatim>\<open>TypeError\<close>, a missing
  image index \<^verbatim>\<open>KeyError\<close>.\<close>

definition gn_article_to_instance ::
  "gn_article option \<Rightarrow> 'img \<Rightarrow> string \<Rightarrow> string \<Rightarrow> error + 'img gn_instance" where
  "gn_article_to_instance article img image_index image_path =
     (case article of
        None \<Rightarrow> Inl TypeError
      | Some a \<Rightarrow>
          (let context = strip (gn_context a)
           in case gn_images a image_index of
                None \<Rightarrow> Inl KeyError
              | Some caption \<Rightarrow>
                  Inr \<lparr>gni_context = context, gni_caption = strip caption, gni_image = img,
                       gni_image_path = image_path, gni_web_url = gn_web_url a\<rparr>))"

fun gn_read_samples ::
  "'img gn_reader \<Rightarrow> (string \<Rightarrow> gn_article option) \<Rightarrow> gn_sample list \<Rightarrow>
     'img gn_instance list \<times> error option" where
  "gn_read_samples rd find_one [] = ([], None)"
| "gn_read_samples rd find_one (sample # rest) =
     (let article = find_one (sample_article_id sample);
          image_path = path_join (gn_image_dir rd) (sample_id sample @ ''.jpg'')
      in case gn_image_open rd image_path of
           None \<Rightarrow> gn_read_samples rd find_one rest
         | Some img \<Rightarrow>
             (case gn_article_to_instance article img (sample_image_index sample) image_path of
                Inl e \<Rightarrow> ([], Some e)
              | Inr inst \<Rightarrow>
                  (let (insts, err) = gn_read_samples rd find_one rest in (inst # insts, err))))"

text \<open>\<open>find_samples\<close> stands for the query on the splits collection with its limit.\<close>

definition goodnews_read ::
  "'img gn_reader \<Rightarrow> (string \<Rightarrow> nat \<Rightarrow> gn_sample list) \<Rightarrow> (string \<Rightarrow> gn_article option) \<Rightarrow>
     string \<Rightarrow> 'img gn_instance list \<times> error option" where
  "goodnews_read rd find_samples find_one split =
     (if split \<notin> set [''train'', ''val'', ''test''] then ([], Some ValueError)
      else
        (let limit = (if split = ''val'' then gn_eval_limit rd else 0)
         in gn_read_samples rd find_one (find_samples split limit)))"

section \<open>Notions used to state the properties of the window\<close>

text \<open>The texts of the paragraph sections with index from \<open>lo\<close> up to but excluding \<open>hi\<close>, in
  article order.\<close>

definition paragraph_texts :: "article_section list \<Rightarrow> nat \<Rightarrow> nat \<Rightarrow> string list" where
  "paragraph_texts sections lo hi =
     map (\<lambda>n. sec_text (sections ! n)) (filter (\<lambda>n. is_paragraph (sections ! n)) [lo..<hi])"

definition title_part :: "article \<Rightarrow> string list" where
  "title_part art = (if headline_title art \<noteq> [] then [headline_title art] else [])"

definition title_words :: "(string \<Rightarrow> nat) \<Rightarrow> article \<Rightarrow> nat" where
  "title_words cnt art = (if headline_title art \<noteq> [] then cnt (headline_title art) else 0)"

definition anchor_part :: "article_section list \<Rightarrow> string list" where
  "anchor_part sections =
     (case find_paragraph sections 0 of Some (k, s) \<Rightarrow> [sec_text s] | None \<Rightarrow> [])"

definition anchor_index :: "article_section list \<Rightarrow> int" where
  "anchor_index sections =
     (case find_paragraph sections 0 of
        Some (k, s) \<Rightarrow> int k
      | None \<Rightarrow> int (length sections) - 1)"

text \<open>
  What holds of the loop variables whenever the loop test is reached for the image at \<open>pos\<close>,
  with anchor index \<open>k\<close> and \<open>n0\<close> words counted before the loop: \<open>before\<close> and \<open>after\<close> are
  the paragraphs strictly between the pointers and the image, beyond the anchor, in article
  order, and the word count is \<open>n0\<close> plus the counts of exactly these paragraphs.
\<close>

definition window_inv ::
  "(string \<Rightarrow> nat) \<Rightarrow> article_section list \<Rightarrow> int \<Rightarrow> nat \<Rightarrow> nat \<Rightarrow> window \<Rightarrow> bool" where
  "window_inv cnt sections k pos n0 st =
     (w_i st < int pos \<and> int pos < w_j st \<and>
      before st = paragraph_texts sections (nat (max (k + 1) (w_i st + 1))) pos \<and>
      after st = paragraph_texts sections (nat (max (k + 1) (int pos + 1)))
                   (nat (min (int (length sections)) (w_j st))) \<and>
      n_words st = n0 + sum_list (map cnt (before st)) + sum_list (map cnt (after st)))"

text \<open>Sections and articles without annotations, for concrete instances.\<close>

definition mk_section :: "string \<Rightarrow> string \<Rightarrow> string \<Rightarrow> article_section" where
  "mk_section type text hash =
     \<lparr>sec_type = type, sec_text = text, sec_hash = hash, parts_of_speech = []\<rparr>"

definition mk_article :: "string option \<Rightarrow> article_section list \<Rightarrow> nat list \<Rightarrow> article" where
  "mk_article title sections positions =
     \<lparr>parsed_section = sections, image_positions = positions,
      art_headline = \<lparr>main = title, headline_parts_of_speech = []\<rparr>, web_url = ''url''\<rparr>"

definition title_names :: "string set option \<Rightarrow> article \<Rightarrow> names list" where
  "title_names rn art =
     (if headline_title art \<noteq> []
      then [get_proper_names rn (headline_parts_of_speech (art_headline art))] else [])"

definition anchor_names :: "string set option \<Rightarrow> article_section list \<Rightarrow> names list" where
  "anchor_names rn sections =
     (case find_paragraph sections 0 of
        Some (k, s) \<Rightarrow> [get_proper_names rn (parts_of_speech s)]
      | None \<Rightarrow> [])"

text \<open>The result of the builder once the caption \<open>caption\<close> is known to be non-empty and the
  loop has ended in \<open>st\<close>.\<close>

definition window_result ::
  "string set option \<Rightarrow> article \<Rightarrow> string \<Rightarrow> window \<Rightarrow> context_window" where
  "window_result rn art caption st =
     \<lparr>cw_paragraphs = title_part art @ anchor_part (parsed_section art),
      cw_paragraph_names = title_names rn art @ anchor_names rn (parsed_section art),
      cw_k = anchor_index (parsed_section art),
      cw_caption = caption, cw_window = st\<rparr>"

section \<open>Basic facts about the extractor\<close>

lemma gpn_step_propn_output:
  "is_propn tok \<Longrightarrow> name_indices (gpn_step rn st tok) = name_indices st"
  by (simp add: gpn_step_def)

lemma gpn_foldl_scan:
  "(\<not> is_middle st \<longrightarrow>
      name_indices (foldl (gpn_step rn) st toks) =
        name_indices st @ map some_span (scan rn None toks)) \<and>
   (is_middle st \<longrightarrow> cur_start st = Some s \<longrightarrow> cur_end st = Some e \<longrightarrow>
      name_indices (foldl (gpn_step rn) st toks) =
        name_indices st @ map some_span (scan rn (Some (s, e)) toks))"
proof (induction toks arbitrary: st s e)
  case Nil
  show ?case by simp
next
  case (Cons t ts)
  show ?case
  proof (intro conjI impI)
    assume closed: "\<not> is_middle st"
    show "name_indices (foldl (gpn_step rn) st (t # ts)) =
            name_indices st @ map some_span (scan rn None (t # ts))"
    proof (cases "is_propn t \<and> may_open rn t")
      case True
      let ?st = "gpn_step rn st t"
      from True closed have "is_middle ?st" "cur_start ?st = Some (tok_start t)"
        "cur_end ?st = Some (tok_end t)" "name_indices ?st = name_indices st"
        by (simp_all add: gpn_step_def)
      with Cons.IH [of ?st "tok_start t" "tok_end t"] True show ?thesis by simp
    next
      case False
      let ?st = "gpn_step rn st t"
      from False closed have "\<not> is_middle ?st" "name_indices ?st = name_indices st"
        by (auto simp add: gpn_step_def)
      with Cons.IH [of ?st] False show ?thesis by auto
    qed
  next
    assume opened: "is_middle st" and s: "cur_start st = Some s" and e: "cur_end st = Some e"
    show "name_indices (foldl (gpn_step rn) st (t # ts)) =
            name_indices st @ map some_span (scan rn (Some (s, e)) (t # ts))"
    proof (cases "is_propn t")
      case True
      let ?st = "gpn_step rn st t"
      from True opened s have "is_middle ?st" "cur_start ?st = Some s"
        "cur_end ?st = Some (tok_end t)" "name_indices ?st = name_indices st"
        by (simp_all add: gpn_step_def)
      with Cons.IH [of ?st s "tok_end t"] True show ?thesis by simp
    next
      case False
      let ?st = "gpn_step rn st t"
      from False opened s e have "\<not> is_middle ?st"
        "name_indices ?st = name_indices st @ [some_span (s, e)]"
        by (simp_all add: gpn_step_def some_span_def)
      with Cons.IH [of ?st] False show ?thesis by simp
    qed
  qed
qed

lemma get_proper_names_scan:
  "get_proper_names rn toks = map some_span (scan rn None toks)"
  using gpn_foldl_scan [of gpn_init rn toks]
  by (simp add: get_proper_names_def gpn_run_def gpn_init_def)

lemma foldl_propn_output:
  "list_all is_propn run \<Longrightarrow>
     name_indices (foldl (gpn_step rn) st run) = name_indices st"
  by (induction run arbitrary: st) (simp_all add: gpn_step_propn_output)

lemma gpn_step_closes: "\<not> is_propn t \<Longrightarrow> \<not> is_middle (gpn_step rn st t)"
  by (simp add: gpn_step_def)

lemma gpn_run_boundary:
  "pre = [] \<or> \<not> is_propn (last pre) \<Longrightarrow> \<not> is_middle (gpn_run rn pre)"
  by (cases pre rule: rev_cases) (simp_all add: gpn_run_def gpn_init_def gpn_step_closes)

lemma foldl_open_run:
  "list_all is_propn run \<Longrightarrow> is_middle st \<Longrightarrow>
     is_middle (foldl (gpn_step rn) st run) \<and>
     cur_start (foldl (gpn_step rn) st run) = cur_start st \<and>
     cur_end (foldl (gpn_step rn) st run) =
       (if run = [] then cur_end st else Some (tok_end (last run)))"
proof (induction run arbitrary: st)
  case Nil
  then show ?case by simp
next
  case (Cons t ts)
  let ?st = "gpn_step rn st t"
  from Cons.prems have "is_middle ?st" "cur_start ?st = cur_start st"
    "cur_end ?st = Some (tok_end t)"
    by (simp_all add: gpn_step_def)
  with Cons.IH [of ?st] Cons.prems show ?case by simp
qed







lemma gpn_append_boundary:
  assumes "pre = [] \<or> \<not> is_propn (last pre)"
  shows "get_proper_names rn (pre @ ts) = get_proper_names rn pre @ get_proper_names rn ts"
proof -
  from assms have "\<not> is_middle (gpn_run rn pre)" by (rule gpn_run_boundary)
  then have "name_indices (foldl (gpn_step rn) (gpn_run rn pre) ts) =
      name_indices (gpn_run rn pre) @ map some_span (scan rn None ts)"
    using gpn_foldl_scan [of "gpn_run rn pre" rn ts] by simp
  then show ?thesis
    by (simp add: get_proper_names_scan [symmetric])
      (simp add: get_proper_names_def gpn_run_def)
qed

lemma scan_open_run:
  "list_all is_propn run \<Longrightarrow> \<not> is_propn t \<Longrightarrow>
     scan rn (Some (s, e)) (run @ t # rest) =
       (s, if run = [] then e else tok_end (last run)) # scan rn None rest"
  by (induction run arbitrary: e) simp_all

lemma scan_skip_run:
  "list_all (\<lambda>t. is_propn t \<and> \<not> may_open rn t) run \<Longrightarrow>
     scan rn None (run @ ts) = scan rn None ts"
  by (induction run) simp_all

lemma gpn_closed_run:
  assumes "is_propn a" "may_open rn a" "list_all is_propn run" "\<not> is_propn t"
  shows "get_proper_names rn (a # run @ t # rest) =
           (Some (tok_start a), Some (tok_end (last (a # run)))) # get_proper_names rn rest"
  using assms by (simp add: get_proper_names_scan scan_open_run some_span_def)

lemma gpn_skipped_run:
  assumes "list_all (\<lambda>t. is_propn t \<and> \<not> may_open rn t) run"
  shows "get_proper_names rn (run @ ts) = get_proper_names rn ts"
  using assms by (simp add: get_proper_names_scan scan_skip_run)

lemma gpn_step_opens:
  "(\<not> is_middle st \<and> is_middle (gpn_step rn st tok)) =
     (\<not> is_middle st \<and> is_propn tok \<and> may_open rn tok)"
  by (auto simp add: gpn_step_def)

lemma may_open_cases:
  "may_open rn tok = (rn = None \<or> rn = Some {} \<or> (\<exists>S. rn = Some S \<and> tok_text tok \<in> S))"
  by (cases rn) (auto simp add: may_open_def)

text \<open>
  C1 (as amended). A span is opened at a token exactly when no span is open, the token is a
  proper noun, and the filter is absent, empty, or contains the token's text; the new span is
  the token's own. While a span is open, a proper-noun token only moves the span's end to its
  own end, whatever the filter says. A run that starts after a non-proper-noun token (or at the
  start), whose first token may open a span and which is closed by a non-proper-noun token,
  contributes exactly one span from its first token's start to its last token's end; a run none
  of whose tokens may open a span contributes nothing. With the filter \<open>{Alice}\<close>, the tokens
  Alice, Smith and a closing token give the one span over both names, and Bob, Smith give none.
\<close>

theorem span_opening_rule:
  "((\<not> is_middle st \<and> is_middle (gpn_step rn st tok)) =
      (\<not> is_middle st \<and> is_propn tok \<and>
       (rn = None \<or> rn = Some {} \<or> (\<exists>S. rn = Some S \<and> tok_text tok \<in> S)))) \<and>
   (\<not> is_middle st \<and> is_middle (gpn_step rn st tok) \<longrightarrow>
      cur_start (gpn_step rn st tok) = Some (tok_start tok) \<and>
      cur_end (gpn_step rn st tok) = Some (tok_end tok)) \<and>
   (is_middle st \<and> is_propn tok \<longrightarrow>
      gpn_step rn st tok = st\<lparr>cur_end := Some (tok_end tok)\<rparr>) \<and>
   ((pre = [] \<or> \<not> is_propn (last pre)) \<and> is_propn a \<and> may_open rn a \<and>
    list_all is_propn run \<and> \<not> is_propn t \<longrightarrow>
      get_proper_names rn (pre @ a # run @ t # rest) =
        get_proper_names rn pre @
        [(Some (tok_start a), Some (tok_end (last (a # run))))] @
        get_proper_names rn rest) \<and>
   ((pre = [] \<or> \<not> is_propn (last pre)) \<and>
    list_all (\<lambda>x. is_propn x \<and> \<not> may_open rn x) run \<longrightarrow>
      get_proper_names rn (pre @ run @ rest) =
        get_proper_names rn pre @ get_proper_names rn rest) \<and>
   (is_propn a \<and> is_propn b \<and> \<not> is_propn t \<and> tok_text a = ''Alice'' \<longrightarrow>
      get_proper_names (Some {''Alice''}) [a, b, t] = [(Some (tok_start a), Some (tok_end b))]) \<and>
   (is_propn a \<and> is_propn b \<and> tok_text a \<noteq> ''Alice'' \<and> tok_text b \<noteq> ''Alice'' \<longrightarrow>
      get_proper_names (Some {''Alice''}) [a, b] = [] \<and>
      get_proper_names (Some {''Alice''}) ([a, b] @ rest) =
        get_proper_names (Some {''Alice''}) rest)"
proof (intro conjI impI)
  show "(\<not> is_middle st \<and> is_middle (gpn_step rn st tok)) =
      (\<not> is_middle st \<and> is_propn tok \<and>
       (rn = None \<or> rn = Some {} \<or> (\<exists>S. rn = Some S \<and> tok_text tok \<in> S)))"
    by (simp only: gpn_step_opens may_open_cases)
next
  assume "\<not> is_middle st \<and> is_middle (gpn_step rn st tok)"
  then show "cur_start (gpn_step rn st tok) = Some (tok_start tok)"
    and "cur_end (gpn_step rn st tok) = Some (tok_end tok)"
    by (auto simp add: gpn_step_def split: if_splits)
next
  assume "is_middle st \<and> is_propn tok"
  then show "gpn_step rn st tok = st\<lparr>cur_end := Some (tok_end tok)\<rparr>"
    by (simp add: gpn_step_def)
next
  assume h: "(pre = [] \<or> \<not> is_propn (last pre)) \<and> is_propn a \<and> may_open rn a \<and>
    list_all is_propn run \<and> \<not> is_propn t"
  then have "get_proper_names rn (pre @ a # run @ t # rest) =
      get_proper_names rn pre @ get_proper_names rn (a # run @ t # rest)"
    by (intro gpn_append_boundary) simp
  with h show "get_proper_names rn (pre @ a # run @ t # rest) =
        get_proper_names rn pre @
        [(Some (tok_start a), Some (tok_end (last (a # run))))] @
        get_proper_names rn rest"
    using gpn_closed_run [of a rn run t rest] by simp
next
  assume h: "(pre = [] \<or> \<not> is_propn (last pre)) \<and>
    list_all (\<lambda>x. is_propn x \<and> \<not> may_open rn x) run"
  then have "get_proper_names rn (pre @ run @ rest) =
      get_proper_names rn pre @ get_proper_names rn (run @ rest)"
    by (intro gpn_append_boundary) simp
  with h show "get_proper_names rn (pre @ run @ rest) =
        get_proper_names rn pre @ get_proper_names rn rest"
    using gpn_skipped_run [of rn run rest] by simp
next
  assume "is_propn a \<and> is_propn b \<and> \<not> is_propn t \<and> tok_text a = ''Alice''"
  then show "get_proper_names (Some {''Alice''}) [a, b, t] =
      [(Some (tok_start a), Some (tok_end b))]"
    by (simp add: get_proper_names_scan may_open_def some_span_def)
next
  assume h: "is_propn a \<and> is_propn b \<and> tok_text a \<noteq> ''Alice'' \<and> tok_text b \<noteq> ''Alice''"
  then show "get_proper_names (Some {''Alice''}) [a, b] = []"
    by (simp add: get_proper_names_scan may_open_def)
  from h show "get_proper_names (Some {''Alice''}) ([a, b] @ rest) =
        get_proper_names (Some {''Alice''}) rest"
    by (simp add: get_proper_names_scan may_open_def)
qed

lemma mk_token_simps:
  "tok_text (mk_token w tag s e) = w" "tok_pos (mk_token w tag s e) = tag"
  "tok_start (mk_token w tag s e) = s" "tok_end (mk_token w tag s e) = e"
  by (simp_all add: mk_token_def)

lemma get_proper_names_Nil: "get_proper_names rn [] = []"
  by (simp add: get_proper_names_def gpn_run_def gpn_init_def)

text \<open>The opening rule at the specification's example: Alice, Smith and a closing verb.\<close>

theorem span_opening_rule_witness:
  "\<not> is_middle gpn_init \<and>
   is_middle (gpn_step (Some {''Alice''}) gpn_init (mk_token ''Alice'' ''PROPN'' 0 5)) \<and>
   cur_start (gpn_step (Some {''Alice''}) gpn_init (mk_token ''Alice'' ''PROPN'' 0 5)) = Some 0 \<and>
   cur_end (gpn_step (Some {''Alice''}) gpn_init (mk_token ''Alice'' ''PROPN'' 0 5)) = Some 5 \<and>
   get_proper_names (Some {''Alice''})
     [mk_token ''Alice'' ''PROPN'' 0 5, mk_token ''Smith'' ''PROPN'' 6 11,
      mk_token ''said'' ''VERB'' 12 16] = [(Some 0, Some 11)]"
  using span_opening_rule [where st = gpn_init and rn = "Some {''Alice''}"
      and tok = "mk_token ''Alice'' ''PROPN'' 0 5" and pre = "[]"
      and a = "mk_token ''Alice'' ''PROPN'' 0 5" and b = "mk_token ''Smith'' ''PROPN'' 6 11"
      and run = "[mk_token ''Smith'' ''PROPN'' 6 11]"
      and t = "mk_token ''said'' ''VERB'' 12 16" and rest = "[]"]
  by (simp add: is_propn_def may_open_def mk_token_simps gpn_init_def get_proper_names_Nil)

text \<open>
  The opening rule as the specification words it fails: with a configured but empty filter set, a proper-noun token that is not a
  member opens a span; and the run Alice, Smith yields no span when nothing follows it.
\<close>

theorem span_opening_counterexample:
  "is_middle (gpn_step (Some {}) gpn_init (mk_token ''Bob'' ''PROPN'' 0 3)) \<and>
   ''Bob'' \<notin> ({} :: string set) \<and>
   get_proper_names (Some {})
     [mk_token ''Bob'' ''PROPN'' 0 3, mk_token ''said'' ''VERB'' 4 8] = [(Some 0, Some 3)] \<and>
   get_proper_names (Some {''Alice''})
     [mk_token ''Alice'' ''PROPN'' 0 5, mk_token ''Smith'' ''PROPN'' 6 11] = []"
  by (simp add: get_proper_names_def gpn_run_def gpn_step_def gpn_init_def is_propn_def
      may_open_def mk_token_simps)

text \<open>
  C2. Proper-noun tokens never append to the output, so a run of proper-noun tokens that
  reaches the end of the sequence adds no span: the result is the result for the tokens before
  the run. When the run starts after a non-proper-noun token (or at the start) and its first
  token may open a span, the scan ends with that span still open, from the first token's start
  to the last token's end, and it is not flushed.
\<close>

theorem trailing_run_dropped:
  assumes "list_all is_propn run"
  shows "get_proper_names rn (pre @ run) = get_proper_names rn pre \<and>
    ((pre = [] \<or> \<not> is_propn (last pre)) \<and> run \<noteq> [] \<and> may_open rn (hd run) \<longrightarrow>
       is_middle (gpn_run rn (pre @ run)) \<and>
       cur_start (gpn_run rn (pre @ run)) = Some (tok_start (hd run)) \<and>
       cur_end (gpn_run rn (pre @ run)) = Some (tok_end (last run)))"
proof (intro conjI impI)
  show "get_proper_names rn (pre @ run) = get_proper_names rn pre"
    using assms by (simp add: get_proper_names_def gpn_run_def foldl_propn_output)
next
  assume h: "(pre = [] \<or> \<not> is_propn (last pre)) \<and> run \<noteq> [] \<and> may_open rn (hd run)"
  then obtain a r where run: "run = a # r" by (cases run) auto
  let ?s0 = "gpn_run rn pre"
  let ?s1 = "gpn_step rn ?s0 a"
  from h have closed: "\<not> is_middle ?s0" by (simp add: gpn_run_boundary)
  with h run assms have s1: "is_middle ?s1" "cur_start ?s1 = Some (tok_start a)"
    "cur_end ?s1 = Some (tok_end a)"
    by (simp_all add: gpn_step_def)
  have final: "gpn_run rn (pre @ run) = foldl (gpn_step rn) ?s1 r"
    by (simp add: gpn_run_def run)
  from assms run have "list_all is_propn r" by simp
  from foldl_open_run [OF this s1(1), of rn] s1 final run
  show "is_middle (gpn_run rn (pre @ run))"
    and "cur_start (gpn_run rn (pre @ run)) = Some (tok_start (hd run))"
    and "cur_end (gpn_run rn (pre @ run)) = Some (tok_end (last run))"
    by simp_all
qed

theorem trailing_run_dropped_witness:
  "list_all is_propn [mk_token ''Alice'' ''PROPN'' 17 22, mk_token ''Smith'' ''PROPN'' 23 28] \<and>
   get_proper_names None
     [mk_token ''Bob'' ''PROPN'' 0 3, mk_token ''met'' ''VERB'' 4 7,
      mk_token ''Alice'' ''PROPN'' 17 22, mk_token ''Smith'' ''PROPN'' 23 28] = [(Some 0, Some 3)] \<and>
   is_middle (gpn_run None
     [mk_token ''Bob'' ''PROPN'' 0 3, mk_token ''met'' ''VERB'' 4 7,
      mk_token ''Alice'' ''PROPN'' 17 22, mk_token ''Smith'' ''PROPN'' 23 28]) \<and>
   cur_start (gpn_run None
     [mk_token ''Bob'' ''PROPN'' 0 3, mk_token ''met'' ''VERB'' 4 7,
      mk_token ''Alice'' ''PROPN'' 17 22, mk_token ''Smith'' ''PROPN'' 23 28]) = Some 17 \<and>
   cur_end (gpn_run None
     [mk_token ''Bob'' ''PROPN'' 0 3, mk_token ''met'' ''VERB'' 4 7,
      mk_token ''Alice'' ''PROPN'' 17 22, mk_token ''Smith'' ''PROPN'' 23 28]) = Some 28"
proof -
  have h: "list_all is_propn
      [mk_token ''Alice'' ''PROPN'' 17 22, mk_token ''Smith'' ''PROPN'' 23 28]"
    by (simp add: is_propn_def mk_token_simps)
  have pre: "get_proper_names None
      [mk_token ''Bob'' ''PROPN'' 0 3, mk_token ''met'' ''VERB'' 4 7] = [(Some 0, Some 3)]"
    by (simp add: get_proper_names_scan is_propn_def may_open_def mk_token_simps some_span_def)
  show ?thesis
    using h pre trailing_run_dropped [OF h, of None
        "[mk_token ''Bob'' ''PROPN'' 0 3, mk_token ''met'' ''VERB'' 4 7]"]
    by (simp add: is_propn_def may_open_def mk_token_simps)
qed




lemma flatten_inner:
  "foldl (\<lambda>acc (start, end). acc @ [(start + offset, end + offset)]) new_indices idx_list =
     new_indices @ map (shift_span offset) idx_list"
  by (induction idx_list arbitrary: new_indices) (simp_all add: shift_span_def split_def)

lemma offset_at_Cons:
  "offset_at (p # ps) (Suc i) = int (length p) + 1 + offset_at ps i"
  by (induction i) simp_all

lemma flatten_loop_eq:
  "flatten_loop off (zip ps ixs) new =
     new @ concat (map (\<lambda>i. map (shift_span (off + offset_at ps i)) (ixs ! i))
                    [0..<min (length ps) (length ixs)])"
proof (induction ps arbitrary: ixs off new)
  case Nil
  show ?case by simp
next
  case (Cons p ps)
  show ?case
  proof (cases ixs)
    case Nil
    then show ?thesis by simp
  next
    case (Cons l ls)
    have "[0..<Suc (min (length ps) (length ls))] =
        0 # map Suc [0..<min (length ps) (length ls)]"
      by (simp add: upt_conv_Cons map_Suc_upt del: upt_Suc)
    then show ?thesis
      using Cons Cons.IH [of "off + int (length p) + 1" ls "new @ map (shift_span off) l"]
      by (simp add: flatten_inner offset_at_Cons comp_def add.assoc del: upt_Suc offset_at.simps(2))
  qed
qed

text \<open>
  C4. The flattened list is the concatenation, in paragraph order, of each paragraph's local
  span list with every span shifted by that paragraph's offset, where the offset of paragraph
  0 is 0 and each later offset adds the previous paragraph's length plus one; only the
  paragraphs that have a span list (and conversely) take part, as \<^verbatim>\<open>zip\<close> pairs them. For
  the paragraphs Hello and World, the local span (0, 5) of paragraph 0 stays (0, 5) and the
  local span (0, 5) of paragraph 1 becomes (6, 11).
\<close>

theorem flatten_name_indices_offsets:
  "flatten_name_indices paragraphs indices =
     concat (map (\<lambda>i. map (\<lambda>(start, end). (start + offset_at paragraphs i,
                                               end + offset_at paragraphs i)) (indices ! i))
              [0..<min (length paragraphs) (length indices)]) \<and>
   offset_at paragraphs 0 = 0 \<and>
   offset_at paragraphs (Suc i) = offset_at paragraphs i + int (length (paragraphs ! i)) + 1 \<and>
   flatten_name_indices [''Hello'', ''World''] [[(0, 5)], [(0, 5)]] = [(0, 5), (6, 11)]"
proof -
  have "shift_span off = (\<lambda>(start, end). (start + off, end + off))" for off
    by (simp add: shift_span_def fun_eq_iff)
  then show ?thesis
    by (simp add: flatten_name_indices_def flatten_loop_eq del: upt_Suc)
qed

section \<open>The rare-name set\<close>

lemma may_open_empty: "may_open (Some {}) t = may_open None t"
  by (simp add: may_open_def)

lemma gpn_step_empty: "gpn_step (Some {}) = gpn_step None"
  by (simp add: fun_eq_iff gpn_step_def may_open_empty)

text \<open>
  C10. An empty rare-name set filters nothing: the extractor's result with the empty set is its
  result with no set, for every token list. The set derived by the constructor is empty when
  every token of the summed counters has a count at or above the threshold, and then the
  extractor behaves as it does when no counter file is given.
\<close>

theorem empty_rare_names_is_no_filter:
  "get_proper_names (Some {}) toks = get_proper_names None toks \<and>
   ((\<forall>w\<in>set (map fst (counter_add (context_counter cs) (caption_counter cs))).
        threshold \<le> counter_get (counter_add (context_counter cs) (caption_counter cs)) w) \<longrightarrow>
      init_rare_names (Some cs) threshold = Some {} \<and>
      get_proper_names (init_rare_names (Some cs) threshold) toks =
        get_proper_names (init_rare_names None threshold) toks)"
proof (intro conjI impI)
  show e: "get_proper_names (Some {}) toks = get_proper_names None toks"
    by (simp add: get_proper_names_def gpn_run_def gpn_step_empty)
  assume h: "\<forall>w\<in>set (map fst (counter_add (context_counter cs) (caption_counter cs))).
        threshold \<le> counter_get (counter_add (context_counter cs) (caption_counter cs)) w"
  then show r: "init_rare_names (Some cs) threshold = Some {}"
    by (auto simp add: init_rare_names_def Let_def)
  show "get_proper_names (init_rare_names (Some cs) threshold) toks =
        get_proper_names (init_rare_names None threshold) toks"
    unfolding r using e by (simp add: init_rare_names_def)
qed

text \<open>The counters give Alice 7 + 5 and Bob 12 occurrences, none below the threshold 10, and
  Bob opens a span although no set contains it.\<close>

theorem empty_rare_names_is_no_filter_witness:
  "list_all (\<lambda>w. 10 \<le> counter_get
        (counter_add [(''Alice'', 7)] [(''Alice'', 5), (''Bob'', 12)]) w)
     (map fst (counter_add [(''Alice'', 7)] [(''Alice'', 5), (''Bob'', 12)])) \<and>
   init_rare_names
     (Some \<lparr>context_counter = [(''Alice'', 7)],
            caption_counter = [(''Alice'', 5), (''Bob'', 12)]\<rparr>) 10 = Some {} \<and>
   get_proper_names
     (init_rare_names
        (Some \<lparr>context_counter = [(''Alice'', 7)],
               caption_counter = [(''Alice'', 5), (''Bob'', 12)]\<rparr>) 10)
     [mk_token ''Bob'' ''PROPN'' 0 3, mk_token ''said'' ''VERB'' 4 8] = [(Some 0, Some 3)]"
proof -
  have c: "counter_add [(''Alice'', 7)] [(''Alice'', 5), (''Bob'', 12)] =
      [(''Alice'', 12), (''Bob'', 12)]"
    by (simp add: counter_add_def counter_get_def)
  have h: "\<forall>w\<in>set (map fst (counter_add [(''Alice'', 7)] [(''Alice'', 5), (''Bob'', 12)])).
      10 \<le> counter_get (counter_add [(''Alice'', 7)] [(''Alice'', 5), (''Bob'', 12)]) w"
    unfolding c by (simp add: counter_get_def)
  have v: "get_proper_names None
      [mk_token ''Bob'' ''PROPN'' 0 3, mk_token ''said'' ''VERB'' 4 8] = [(Some 0, Some 3)]"
    by (simp add: get_proper_names_scan is_propn_def may_open_def mk_token_simps some_span_def)
  show ?thesis
    using h v empty_rare_names_is_no_filter [where threshold = 10
        and cs = "\<lparr>context_counter = [(''Alice'', 7)],
                   caption_counter = [(''Alice'', 5), (''Bob'', 12)]\<rparr>"
        and toks = "[mk_token ''Bob'' ''PROPN'' 0 3, mk_token ''said'' ''VERB'' 4 8]"]
    by (simp add: init_rare_names_def list_all_iff)
qed

section \<open>The loop of the context window builder\<close>

lemma py_index_nat:
  "0 \<le> i \<Longrightarrow> i < int (length xs) \<Longrightarrow> py_index xs i = Inr (xs ! nat i)"
  by (simp add: py_index_def Let_def)

lemma paragraph_texts_empty: "hi \<le> lo \<Longrightarrow> paragraph_texts sections lo hi = []"
  by (simp add: paragraph_texts_def)

lemma paragraph_texts_Cons:
  "lo < hi \<Longrightarrow> paragraph_texts sections lo hi =
     (if is_paragraph (sections ! lo) then [sec_text (sections ! lo)] else []) @
     paragraph_texts sections (Suc lo) hi"
  by (simp add: paragraph_texts_def upt_conv_Cons)

lemma paragraph_texts_snoc:
  "lo \<le> hi \<Longrightarrow> paragraph_texts sections lo (Suc hi) =
     paragraph_texts sections lo hi @
     (if is_paragraph (sections ! hi) then [sec_text (sections ! hi)] else [])"
  by (simp add: paragraph_texts_def)

lemma step_backward_eq:
  assumes "- 1 \<le> k" "w_i st < int (length sections)"
  shows "step_backward rn cnt sections k st =
     Inr (if k < w_i st \<and> is_paragraph (sections ! nat (w_i st)) then
            st\<lparr>before := sec_text (sections ! nat (w_i st)) # before st,
               before_names :=
                 get_proper_names rn (parts_of_speech (sections ! nat (w_i st))) # before_names st,
               n_words := n_words st + cnt (sec_text (sections ! nat (w_i st))),
               w_i := w_i st - 1\<rparr>
          else st\<lparr>w_i := w_i st - 1\<rparr>)"
  using assms by (simp add: step_backward_def py_index_nat)

lemma step_forward_eq:
  assumes "- 1 \<le> k"
  shows "step_forward rn cnt sections k st =
     Inr (if k < w_j st \<and> w_j st < int (length sections) \<and>
             is_paragraph (sections ! nat (w_j st)) then
            st\<lparr>after := after st @ [sec_text (sections ! nat (w_j st))],
               after_names :=
                 after_names st @ [get_proper_names rn (parts_of_speech (sections ! nat (w_j st)))],
               n_words := n_words st + cnt (sec_text (sections ! nat (w_j st))),
               w_j := w_j st + 1\<rparr>
          else st\<lparr>w_j := w_j st + 1\<rparr>)"
  using assms by (simp add: step_forward_def py_index_nat)

lemma expand_body_inv:
  assumes pos: "pos < length sections" and k: "- 1 \<le> k"
    and inv: "window_inv cnt sections k pos n0 st"
  shows "\<exists>st'. expand_body rn cnt sections k st = Inr st' \<and>
           window_inv cnt sections k pos n0 st' \<and>
           w_i st' = w_i st - 1 \<and> w_j st' = w_j st + 1"
proof -
  from inv have i: "w_i st < int pos" and j: "int pos < w_j st"
    and b: "before st = paragraph_texts sections (nat (max (k + 1) (w_i st + 1))) pos"
    and a: "after st = paragraph_texts sections (nat (max (k + 1) (int pos + 1)))
                   (nat (min (int (length sections)) (w_j st)))"
    and n: "n_words st = n0 + sum_list (map cnt (before st)) + sum_list (map cnt (after st))"
    by (simp_all add: window_inv_def)
  from i pos have i_len: "w_i st < int (length sections)" by simp
  define s1 where "s1 = (if k < w_i st \<and> is_paragraph (sections ! nat (w_i st)) then
            st\<lparr>before := sec_text (sections ! nat (w_i st)) # before st,
               before_names :=
                 get_proper_names rn (parts_of_speech (sections ! nat (w_i st))) # before_names st,
               n_words := n_words st + cnt (sec_text (sections ! nat (w_i st))),
               w_i := w_i st - 1\<rparr>
          else st\<lparr>w_i := w_i st - 1\<rparr>)"
  have sb: "step_backward rn cnt sections k st = Inr s1"
    unfolding s1_def using k i_len by (rule step_backward_eq)
  define s2 where "s2 = (if k < w_j s1 \<and> w_j s1 < int (length sections) \<and>
             is_paragraph (sections ! nat (w_j s1)) then
            s1\<lparr>after := after s1 @ [sec_text (sections ! nat (w_j s1))],
               after_names :=
                 after_names s1 @ [get_proper_names rn (parts_of_speech (sections ! nat (w_j s1)))],
               n_words := n_words s1 + cnt (sec_text (sections ! nat (w_j s1))),
               w_j := w_j s1 + 1\<rparr>
          else s1\<lparr>w_j := w_j s1 + 1\<rparr>)"
  have sf: "step_forward rn cnt sections k s1 = Inr s2"
    unfolding s2_def using k by (rule step_forward_eq)
  have body: "expand_body rn cnt sections k st = Inr s2"
    by (simp add: expand_body_def sb sf)
  have s1_i: "w_i s1 = w_i st - 1" and s1_j: "w_j s1 = w_j st"
    and s1_a: "after s1 = after st"
    by (simp_all add: s1_def)
  have s1_b: "before s1 = paragraph_texts sections (nat (max (k + 1) (w_i st))) pos"
  proof (cases "k < w_i st")
    case True
    with k have eq: "nat (max (k + 1) (w_i st)) = nat (w_i st)"
      "nat (max (k + 1) (w_i st + 1)) = Suc (nat (w_i st))"
      by simp_all
    from True k i have lt: "nat (w_i st) < pos" by simp
    from b have b': "before st = paragraph_texts sections (Suc (nat (w_i st))) pos"
      by (simp only: eq)
    have "before s1 = sec_text (sections ! nat (w_i st)) # before st
          \<and> is_paragraph (sections ! nat (w_i st)) \<or>
          before s1 = before st \<and> \<not> is_paragraph (sections ! nat (w_i st))"
      using True by (simp add: s1_def)
    then show ?thesis
      unfolding eq(1) paragraph_texts_Cons [OF lt] b' by auto
  next
    case False
    then have "max (k + 1) (w_i st) = max (k + 1) (w_i st + 1)" by simp
    with False b show ?thesis by (simp add: s1_def)
  qed
  have s1_n: "n_words s1 = n0 + sum_list (map cnt (before s1)) + sum_list (map cnt (after s1))"
    using n by (simp add: s1_def)
  have s2_i: "w_i s2 = w_i st - 1" and s2_j: "w_j s2 = w_j st + 1"
    and s2_b: "before s2 = before s1"
    by (simp_all add: s2_def s1_i s1_j)
  have s2_a: "after s2 = paragraph_texts sections (nat (max (k + 1) (int pos + 1)))
                   (nat (min (int (length sections)) (w_j st + 1)))"
  proof (cases "k < w_j st \<and> w_j st < int (length sections)")
    case True
    with j have lo: "nat (max (k + 1) (int pos + 1)) \<le> nat (w_j st)" by arith
    from True have eq: "nat (min (int (length sections)) (w_j st)) = nat (w_j st)"
      "nat (min (int (length sections)) (w_j st + 1)) = Suc (nat (w_j st))"
      using j by simp_all
    from a have a': "after st = paragraph_texts sections (nat (max (k + 1) (int pos + 1)))
        (nat (w_j st))"
      by (simp only: eq)
    have "after s2 = after st @ [sec_text (sections ! nat (w_j st))]
          \<and> is_paragraph (sections ! nat (w_j st)) \<or>
          after s2 = after st \<and> \<not> is_paragraph (sections ! nat (w_j st))"
      using True by (simp add: s2_def s1_j s1_a)
    then show ?thesis
      unfolding eq(2) paragraph_texts_snoc [OF lo] a' by auto
  next
    case False
    have "paragraph_texts sections (nat (max (k + 1) (int pos + 1)))
            (nat (min (int (length sections)) (w_j st + 1))) =
          paragraph_texts sections (nat (max (k + 1) (int pos + 1)))
            (nat (min (int (length sections)) (w_j st)))"
    proof (cases "w_j st < int (length sections)")
      case True
      with False have "w_j st \<le> k" by simp
      then show ?thesis using j by (simp add: paragraph_texts_empty)
    next
      case False
      then show ?thesis by simp
    qed
    moreover from False have "after s2 = after st" by (auto simp add: s2_def s1_j s1_a)
    ultimately show ?thesis using a by simp
  qed
  have s2_n: "n_words s2 = n0 + sum_list (map cnt (before s2)) + sum_list (map cnt (after s2))"
    using s1_n by (simp add: s2_def)
  have "window_inv cnt sections k pos n0 s2"
    unfolding window_inv_def using i j s1_b s2_a s2_n
    by (simp add: s2_i s2_j s2_b)
  with body s2_i s2_j show ?thesis by blast
qed





lemma expand_body_pointers:
  assumes "expand_body rn cnt sections k st = Inr st'"
  shows "w_i st' = w_i st - 1 \<and> w_j st' = w_j st + 1"
  using assms
  by (auto simp add: expand_body_def step_backward_def step_forward_def
      split: sum.splits if_splits)


lemma expand_inv:
  "pos < length sections \<Longrightarrow> - 1 \<le> k \<Longrightarrow> window_inv cnt sections k pos n0 st \<Longrightarrow>
     \<exists>st'. expand rn cnt sections k st = Inr st' \<and> window_inv cnt sections k pos n0 st' \<and>
       expand_done sections k st'"
proof (induction rn cnt sections k st rule: expand.induct)
  case (1 rn cnt sections k st)
  from expand_body_inv [OF "1.prems", of rn] obtain s1 where
    body: "expand_body rn cnt sections k st = Inr s1"
    and inv: "window_inv cnt sections k pos n0 s1"
    by blast
  show ?case
  proof (cases "expand_done sections k s1")
    case True
    with body inv show ?thesis by (subst expand.simps) simp
  next
    case False
    from "1.IH" [OF body False "1.prems"(1,2) inv] body False show ?thesis
      by (subst expand.simps) simp
  qed
qed

lemma expand_iterations_bound:
  "expand_iterations rn cnt sections k st \<le>
     max 1 (nat (max (w_i st - k) (int (length sections) - w_j st)))"
proof (induction rn cnt sections k st rule: expand_iterations.induct)
  case (1 rn cnt sections k st)
  show ?case
  proof (cases "expand_body rn cnt sections k st")
    case (Inl e)
    then show ?thesis by (subst expand_iterations.simps) simp
  next
    case (Inr s1)
    note p = expand_body_pointers [OF Inr]
    show ?thesis
    proof (cases "expand_done sections k s1")
      case True
      with Inr show ?thesis by (subst expand_iterations.simps) simp
    next
      case False
      then have "k < w_i s1 \<or> w_j s1 < int (length sections)"
        by (auto simp add: expand_done_def)
      with p "1.IH" [OF Inr False] Inr False show ?thesis
        by (subst expand_iterations.simps) (simp, arith)
    qed
  qed
qed

lemma window_init_inv:
  "window_inv cnt sections k pos n0 (window_init pos n0)"
  by (simp add: window_inv_def window_init_def paragraph_texts_empty)

lemma find_paragraph_filter:
  "map (\<lambda>p. sec_text (snd p)) (case find_paragraph sections n of None \<Rightarrow> [] | Some p \<Rightarrow> [p]) =
     map sec_text (take 1 (filter is_paragraph sections))"
  by (induction sections arbitrary: n) simp_all

lemma anchor_part_first:
  "anchor_part sections = map sec_text (take 1 (filter is_paragraph sections))"
  using find_paragraph_filter [of sections 0]
  by (cases "find_paragraph sections 0") (auto simp add: anchor_part_def)

lemma find_paragraph_index:
  "find_paragraph sections n = Some (k, s) \<Longrightarrow>
     n \<le> k \<and> k - n < length sections \<and> s = sections ! (k - n) \<and> is_paragraph s \<and>
     (\<forall>m<k - n. \<not> is_paragraph (sections ! m))"
proof (induction sections arbitrary: n)
  case Nil
  then show ?case by simp
next
  case (Cons a sections)
  show ?case
  proof (cases "is_paragraph a")
    case True
    with Cons.prems show ?thesis by simp
  next
    case False
    with Cons.prems have "find_paragraph sections (Suc n) = Some (k, s)" by simp
    from Cons.IH [OF this] have ih: "Suc n \<le> k" "k - Suc n < length sections"
      "s = sections ! (k - Suc n)" "is_paragraph s"
      "\<forall>m<k - Suc n. \<not> is_paragraph (sections ! m)"
      by blast+
    from ih(1) have d: "k - n = Suc (k - Suc n)" by simp
    from ih False show ?thesis
      unfolding d by (auto simp add: less_Suc_eq_0_disj)
  qed
qed

lemma anchor_index_range:
  "sections \<noteq> [] \<Longrightarrow> 0 \<le> anchor_index sections \<and> anchor_index sections < int (length sections)"
  by (auto simp add: anchor_index_def split: option.splits dest: find_paragraph_index)

section \<open>The context window as a whole\<close>

lemma mk_section_simps:
  "sec_type (mk_section ty tx h) = ty" "sec_text (mk_section ty tx h) = tx"
  "sec_hash (mk_section ty tx h) = h" "parts_of_speech (mk_section ty tx h) = []"
  by (simp_all add: mk_section_def)

lemma mk_article_simps:
  "parsed_section (mk_article t ss ps) = ss" "image_positions (mk_article t ss ps) = ps"
  "main (art_headline (mk_article t ss ps)) = t"
  "headline_parts_of_speech (art_headline (mk_article t ss ps)) = []"
  "web_url (mk_article t ss ps) = ''url''"
  by (simp_all add: mk_article_def)

lemmas eval_window =
  build_context_def headline_title_def strip_def is_space_def py_index_def
  mk_section_simps mk_article_simps is_paragraph_def window_init_def get_proper_names_Nil
  expand.simps expand_body_def step_backward_def step_forward_def expand_done_def Let_def

lemma build_context_eq:
  "build_context rn cnt art pos =
     (case py_index (parsed_section art) (int pos) of
        Inl e \<Rightarrow> Inl e
      | Inr s \<Rightarrow>
          if strip (sec_text s) = [] then Inr None
          else
            (case expand rn cnt (parsed_section art) (anchor_index (parsed_section art))
                    (window_init pos (title_words cnt art)) of
               Inl e \<Rightarrow> Inl e
             | Inr st \<Rightarrow> Inr (Some (window_result rn art (strip (sec_text s)) st))))"
proof (cases "py_index (parsed_section art) (int pos)")
  case (Inl e)
  then show ?thesis by (simp add: build_context_def Let_def)
next
  case (Inr s)
  show ?thesis
  proof (cases "strip (sec_text s) = []")
    case True
    with Inr show ?thesis by (simp add: build_context_def Let_def)
  next
    case False
    show ?thesis
    proof (cases "find_paragraph (parsed_section art) 0")
      case None
      have "build_context rn cnt art pos =
          (case expand rn cnt (parsed_section art) (int (length (parsed_section art)) - 1)
                    (window_init pos (title_words cnt art)) of
               Inl e \<Rightarrow> Inl e
             | Inr st \<Rightarrow> Inr (Some \<lparr>cw_paragraphs = title_part art,
                      cw_paragraph_names = title_names rn art,
                      cw_k = int (length (parsed_section art)) - 1,
                      cw_caption = strip (sec_text s), cw_window = st\<rparr>))"
        unfolding build_context_def Let_def Inr None title_part_def title_names_def
          title_words_def
        using False by simp
      with None show ?thesis
        by (simp add: Inr False window_result_def anchor_index_def anchor_part_def
            anchor_names_def split: sum.splits)
    next
      case (Some p)
      obtain k a where p: "p = (k, a)" by (cases p)
      have "build_context rn cnt art pos =
          (case expand rn cnt (parsed_section art) (int k)
                    (window_init pos (title_words cnt art)) of
               Inl e \<Rightarrow> Inl e
             | Inr st \<Rightarrow> Inr (Some \<lparr>cw_paragraphs = title_part art @ [sec_text a],
                      cw_paragraph_names =
                        title_names rn art @ [get_proper_names rn (parts_of_speech a)],
                      cw_k = int k,
                      cw_caption = strip (sec_text s), cw_window = st\<rparr>))"
        unfolding build_context_def Let_def Inr Some p title_part_def title_names_def
          title_words_def
        using False by simp
      with Some p show ?thesis
        by (simp add: Inr False window_result_def anchor_index_def anchor_part_def
            anchor_names_def split: sum.splits)
    qed
  qed
qed

lemma build_context_SomeD:
  assumes "build_context rn cnt art pos = Inr (Some cw)"
  shows "pos < length (parsed_section art) \<and>
    strip (sec_text (parsed_section art ! pos)) \<noteq> [] \<and>
    cw = window_result rn art (strip (sec_text (parsed_section art ! pos))) (cw_window cw) \<and>
    expand rn cnt (parsed_section art) (anchor_index (parsed_section art))
      (window_init pos (title_words cnt art)) = Inr (cw_window cw)"
proof -
  have pos: "pos < length (parsed_section art)"
  proof (rule ccontr)
    assume "\<not> pos < length (parsed_section art)"
    then have "py_index (parsed_section art) (int pos) = Inl IndexError"
      by (simp add: py_index_def Let_def)
    with assms show False by (simp add: build_context_eq)
  qed
  then have ix: "py_index (parsed_section art) (int pos) = Inr (parsed_section art ! pos)"
    by (simp add: py_index_nat)
  from assms pos show ?thesis
    unfolding build_context_eq ix
    by (auto simp add: window_result_def split: if_splits sum.splits)
qed

lemma build_context_total:
  assumes pos: "pos < length (parsed_section art)"
  shows "build_context rn cnt art pos = Inr None \<and>
           strip (sec_text (parsed_section art ! pos)) = [] \<or>
         (\<exists>st. build_context rn cnt art pos =
                 Inr (Some (window_result rn art
                   (strip (sec_text (parsed_section art ! pos))) st)) \<and>
            window_inv cnt (parsed_section art) (anchor_index (parsed_section art)) pos
              (title_words cnt art) st \<and>
            expand_done (parsed_section art) (anchor_index (parsed_section art)) st)"
proof -
  let ?ss = "parsed_section art"
  from pos have ix: "py_index ?ss (int pos) = Inr (?ss ! pos)"
    by (simp add: py_index_nat)
  from pos have "?ss \<noteq> []" by auto
  then have k: "- 1 \<le> anchor_index ?ss" using anchor_index_range [of ?ss] by simp
  from expand_inv [OF pos k window_init_inv, where rn = rn and cnt = cnt
      and ?n0.0 = "title_words cnt art"]
  obtain st where st: "expand rn cnt ?ss (anchor_index ?ss)
      (window_init pos (title_words cnt art)) = Inr st"
    "window_inv cnt ?ss (anchor_index ?ss) pos (title_words cnt art) st"
    "expand_done ?ss (anchor_index ?ss) st"
    by blast
  show ?thesis
    unfolding build_context_eq ix using st by auto
qed

lemma build_context_inv:
  assumes "build_context rn cnt art pos = Inr (Some cw)"
  shows "window_inv cnt (parsed_section art) (anchor_index (parsed_section art)) pos
           (title_words cnt art) (cw_window cw)"
proof -
  from build_context_SomeD [OF assms] have pos: "pos < length (parsed_section art)" by simp
  from build_context_total [OF pos, of rn cnt] assms show ?thesis
    by (auto simp add: window_result_def)
qed

section \<open>The word count and the budget\<close>

text \<open>
  C5, at an article with the headline T and the sections A, B (paragraphs), an image and C (a
  paragraph), every text counting 3 tokens, for the image at position 2. The context holds the
  four texts T, A, B and C, 12 tokens in all, but the running total is 9: the headline, B and
  C are counted, the anchor paragraph A is appended without being counted.
\<close>

theorem anchor_words_not_counted:
  "build_context None (\<lambda>_. 3)
     (mk_article (Some ''T'')
        [mk_section ''paragraph'' ''A'' [], mk_section ''paragraph'' ''B'' [],
         mk_section ''image'' ''cap'' ''h'', mk_section ''paragraph'' ''C'' []] [2]) 2 =
   Inr (Some \<lparr>cw_paragraphs = [''T'', ''A''], cw_paragraph_names = [[], []], cw_k = 0,
              cw_caption = ''cap'',
              cw_window = \<lparr>w_i = 0, w_j = 4, before = [''B''], before_names = [[]],
                            after = [''C''], after_names = [[]], n_words = 9\<rparr>\<rparr>)"
  by (simp add: eval_window)




section \<open>Termination of the builder\<close>

lemma find_paragraph_None:
  "list_all (\<lambda>s. \<not> is_paragraph s) sections \<Longrightarrow> find_paragraph sections n = None"
  by (induction sections arbitrary: n) simp_all

text \<open>
  C9. For an image position inside the section list (which is then not empty), the builder
  returns a result and raises nothing: the anchor search is a structural recursion over the
  sections and the expansion loop is a total function, whose body runs at most as many times
  as there are sections, whatever was counted before the loop. From any state of the loop
  variables the body runs at most \<open>max(1, i - k, len(sections) - j)\<close> times. A position beyond
  the list raises \<^verbatim>\<open>IndexError\<close> before either loop is reached. When no section is a
  paragraph the anchor search finds nothing and leaves \<open>k\<close> at the last index, and the same
  bounds hold.
\<close>

theorem window_builder_terminates:
  "(pos < length (parsed_section art) \<longrightarrow>
      (\<exists>r. build_context rn cnt art pos = Inr r) \<and>
      expand_iterations rn cnt (parsed_section art) (anchor_index (parsed_section art))
        (window_init pos n) \<le> length (parsed_section art)) \<and>
   (length (parsed_section art) \<le> pos \<longrightarrow> build_context rn cnt art pos = Inl IndexError) \<and>
   expand_iterations rn cnt sections k st \<le>
     max 1 (nat (max (w_i st - k) (int (length sections) - w_j st))) \<and>
   (list_all (\<lambda>s. \<not> is_paragraph s) (parsed_section art) \<longrightarrow>
      find_paragraph (parsed_section art) 0 = None \<and>
      anchor_index (parsed_section art) = int (length (parsed_section art)) - 1)"
proof (intro conjI impI)
  assume pos: "pos < length (parsed_section art)"
  from build_context_total [OF pos, of rn cnt]
  show "\<exists>r. build_context rn cnt art pos = Inr r" by blast
  let ?ss = "parsed_section art"
  from pos have ne: "?ss \<noteq> []" by auto
  note k = anchor_index_range [OF ne]
  have "expand_iterations rn cnt ?ss (anchor_index ?ss) (window_init pos n) \<le>
      max 1 (nat (max (w_i (window_init pos n) - anchor_index ?ss)
                      (int (length ?ss) - w_j (window_init pos n))))"
    by (rule expand_iterations_bound)
  also have "\<dots> \<le> length ?ss"
    using k pos by (simp add: window_init_def) arith
  finally show "expand_iterations rn cnt ?ss (anchor_index ?ss) (window_init pos n) \<le>
      length ?ss" .
next
  assume "length (parsed_section art) \<le> pos"
  then have "py_index (parsed_section art) (int pos) = Inl IndexError"
    by (simp add: py_index_def)
  then show "build_context rn cnt art pos = Inl IndexError"
    by (simp add: build_context_eq)
next
  show "expand_iterations rn cnt sections k st \<le>
      max 1 (nat (max (w_i st - k) (int (length sections) - w_j st)))"
    by (rule expand_iterations_bound)
next
  assume a: "list_all (\<lambda>s. \<not> is_paragraph s) (parsed_section art)"
  then show "find_paragraph (parsed_section art) 0 = None" by (rule find_paragraph_None)
  then show "anchor_index (parsed_section art) = int (length (parsed_section art)) - 1"
    by (simp add: anchor_index_def)
qed

text \<open>An article of two image sections and no paragraph: the builder returns the empty
  window, and the loop body runs at most twice.\<close>

theorem window_builder_terminates_witness:
  "(0 :: nat) < length [mk_section ''image'' ''cap'' ''h'', mk_section ''image'' ''x'' ''g''] \<and>
   list_all (\<lambda>s. \<not> is_paragraph s)
     [mk_section ''image'' ''cap'' ''h'', mk_section ''image'' ''x'' ''g''] \<and>
   (\<exists>r. build_context None (\<lambda>_. 3)
      (mk_article None [mk_section ''image'' ''cap'' ''h'', mk_section ''image'' ''x'' ''g''] [0])
      0 = Inr r) \<and>
   anchor_index [mk_section ''image'' ''cap'' ''h'', mk_section ''image'' ''x'' ''g''] = 1 \<and>
   expand_iterations None (\<lambda>_. 3)
     [mk_section ''image'' ''cap'' ''h'', mk_section ''image'' ''x'' ''g'']
     (anchor_index [mk_section ''image'' ''cap'' ''h'', mk_section ''image'' ''x'' ''g''])
     (window_init 0 0) \<le> 2"
proof -
  let ?ss = "[mk_section ''image'' ''cap'' ''h'', mk_section ''image'' ''x'' ''g'']"
  let ?art = "mk_article None ?ss [0]"
  have h: "0 < length (parsed_section ?art)" by (simp add: mk_article_simps)
  have a: "list_all (\<lambda>s. \<not> is_paragraph s) ?ss"
    by (simp add: is_paragraph_def mk_section_simps)
  from window_builder_terminates [where art = ?art and pos = 0 and rn = None
      and cnt = "\<lambda>_. 3" and n = 0 and sections = ?ss and k = 1
      and st = "window_init 0 0"] h a
  have "\<exists>r. build_context None (\<lambda>_. 3) ?art 0 = Inr r"
    and "expand_iterations None (\<lambda>_. 3) ?ss (anchor_index ?ss) (window_init 0 0) \<le> length ?ss"
    and "anchor_index ?ss = int (length ?ss) - 1"
    by (auto simp add: mk_article_simps)
  with a show ?thesis by simp
qed

section \<open>The emitted instances\<close>

lemma read_pos_SomeD:
  assumes "read_pos rd art pos = Inr (Some inst)"
  shows "\<exists>cw. build_context (rare_names rd) (count_tokens rd) art pos = Inr (Some cw) \<and>
           inst_paragraphs inst =
             cw_paragraphs cw @ before (cw_window cw) @ after (cw_window cw) \<and>
           inst_caption inst = cw_caption cw \<and>
           image_open rd (image_path_of rd (parsed_section art ! pos)) = Some (inst_image inst)"
proof -
  from assms obtain cw where
    cw: "build_context (rare_names rd) (count_tokens rd) art pos = Inr (Some cw)"
    by (auto simp add: read_pos_def split: sum.splits option.splits)
  from build_context_SomeD [OF cw] have "pos < length (parsed_section art)" by simp
  then have ix: "py_index (parsed_section art) (int pos) = Inr (parsed_section art ! pos)"
    by (simp add: py_index_nat)
  from assms show ?thesis
    unfolding read_pos_def cw ix
    by (auto simp add: Let_def split: option.splits)
qed








lemma anchor_part_index:
  "\<exists>ks. anchor_part sections = map (\<lambda>n. sec_text (sections ! n)) ks \<and>
     list_all (\<lambda>n. n < length sections \<and> is_paragraph (sections ! n) \<and>
                int n \<le> anchor_index sections) ks \<and>
     length ks \<le> 1"
proof (cases "find_paragraph sections 0")
  case None
  then show ?thesis by (intro exI [of _ "[]"]) (simp add: anchor_part_def)
next
  case (Some p)
  obtain k s where p: "p = (k, s)" by (cases p)
  from find_paragraph_index [of sections 0 k s] Some p
  have "k < length sections" "s = sections ! k" "is_paragraph (sections ! k)" by auto
  with Some p show ?thesis
    by (intro exI [of _ "[k]"]) (simp add: anchor_part_def anchor_index_def)
qed

lemma positional_order:
  assumes pos: "pos < length sections" and lo: "anchor_index sections < int lo"
    and hi: "hi \<le> length sections"
    and lo': "lo' = nat (max (anchor_index sections + 1) (int pos + 1))"
  shows "\<exists>idx. sorted_wrt (<) idx \<and>
     list_all (\<lambda>n. n < length sections \<and> is_paragraph (sections ! n)) idx \<and>
     anchor_part sections @ paragraph_texts sections lo pos @
       paragraph_texts sections lo' hi =
     map (\<lambda>n. sec_text (sections ! n)) idx"
proof -
  let ?P = "\<lambda>n. is_paragraph (sections ! n)"
  from lo' have l1: "pos < lo'" and l2: "anchor_index sections < int lo'" by arith+
  from anchor_part_index [of sections] obtain ks where
    ks: "anchor_part sections = map (\<lambda>n. sec_text (sections ! n)) ks"
    "list_all (\<lambda>n. n < length sections \<and> is_paragraph (sections ! n) \<and>
                int n \<le> anchor_index sections) ks"
    "length ks \<le> 1"
    by blast
  define bs where "bs = filter ?P [lo..<pos]"
  define as where "as = filter ?P [lo'..<hi]"
  have s_ks: "sorted_wrt (<) ks"
    using ks(3) by (cases ks) simp_all
  have s_bs: "sorted_wrt (<) bs" and s_as: "sorted_wrt (<) as"
    by (simp_all add: bs_def as_def sorted_wrt_filter)
  have in_bs: "lo \<le> y \<and> y < pos \<and> ?P y" if "y \<in> set bs" for y
    using that by (simp add: bs_def)
  have in_as: "lo' \<le> y \<and> y < hi \<and> ?P y" if "y \<in> set as" for y
    using that by (simp add: as_def)
  have in_ks: "int x \<le> anchor_index sections \<and> x < length sections \<and> ?P x"
    if "x \<in> set ks" for x
    using that ks(2) by (simp add: list_all_iff)
  have ks_bs: "x < y" if "x \<in> set ks" "y \<in> set bs" for x y
    using in_ks [OF that(1)] in_bs [OF that(2)] lo by linarith
  have ks_as: "x < y" if "x \<in> set ks" "y \<in> set as" for x y
    using in_ks [OF that(1)] in_as [OF that(2)] l2 by linarith
  have bs_as: "x < y" if "x \<in> set bs" "y \<in> set as" for x y
    using in_bs [OF that(1)] in_as [OF that(2)] l1 by linarith
  have sorted: "sorted_wrt (<) (ks @ bs @ as)"
    using s_ks s_bs s_as ks_bs ks_as bs_as by (auto simp add: sorted_wrt_append)
  have inside: "list_all (\<lambda>n. n < length sections \<and> is_paragraph (sections ! n))
      (ks @ bs @ as)"
    unfolding list_all_iff
  proof
    fix n assume "n \<in> set (ks @ bs @ as)"
    then consider "n \<in> set ks" | "n \<in> set bs" | "n \<in> set as" by auto
    then show "n < length sections \<and> is_paragraph (sections ! n)"
    proof cases
      case 1 then show ?thesis using in_ks by blast
    next
      case 2 then show ?thesis using in_bs [of n] pos by simp
    next
      case 3 then show ?thesis using in_as [of n] hi by simp
    qed
  qed
  have "anchor_part sections @ paragraph_texts sections lo pos @
       paragraph_texts sections lo' hi = map (\<lambda>n. sec_text (sections ! n)) (ks @ bs @ as)"
    by (simp add: ks(1) paragraph_texts_def bs_def as_def)
  with sorted inside show ?thesis by blast
qed

text \<open>
  The ordering as the specification words it, not a simple positional order across the whole
  article, fails: for the headline T and the sections A (paragraph), an image, B (paragraph),
  the image at position 3 and C (paragraph), the emitted list is the headline followed by all
  paragraph sections of the article in their positional order.
\<close>

theorem context_positional_counterexample:
  "read_pos \<lparr>rare_names = None, image_dir = ''img'', count_tokens = (\<lambda>_. 3),
             image_open = (\<lambda>_. Some (0 :: nat))\<rparr>
     (mk_article (Some ''T'')
        [mk_section ''paragraph'' ''A'' [], mk_section ''image'' ''x'' ''g'',
         mk_section ''paragraph'' ''B'' [], mk_section ''image'' ''cap'' ''h'',
         mk_section ''paragraph'' ''C'' []] [1, 3]) 3 =
   Inr (Some \<lparr>inst_paragraphs = [''T'', ''A'', ''B'', ''C''],
              inst_name_indices = [[], [], [], []], inst_caption_name_indices = [],
              inst_image = 0, inst_caption = ''cap'', inst_image_path = ''img/h.jpg'',
              inst_web_url = ''url'', inst_pos = 3\<rparr>) \<and>
   [''T'', ''A'', ''B'', ''C''] =
     ''T'' # paragraph_texts
       [mk_section ''paragraph'' ''A'' [], mk_section ''image'' ''x'' ''g'',
        mk_section ''paragraph'' ''B'' [], mk_section ''image'' ''cap'' ''h'',
        mk_section ''paragraph'' ''C'' []] 0
       (length [mk_section ''paragraph'' ''A'' [], mk_section ''image'' ''x'' ''g'',
        mk_section ''paragraph'' ''B'' [], mk_section ''image'' ''cap'' ''h'',
        mk_section ''paragraph'' ''C'' []])"
  by (simp add: read_pos_def image_path_of_def path_join_def eval_window paragraph_texts_def)

text \<open>
  C7 (as amended). The paragraphs of an emitted instance are, in this order: the stripped
  headline when it is not empty; the text of the first paragraph-type section of the article,
  when there is one; the paragraph sections with index from some \<open>lo\<close> beyond the anchor up to
  the image position, in article order; and the paragraph sections after both the image
  position and the anchor, up to some \<open>hi\<close>, in article order. Because the anchor is the first
  paragraph and only sections beyond it are collected, this is the headline followed by
  paragraph sections of the article in strictly ascending index, that is, in positional order.
\<close>

theorem context_paragraph_order:
  assumes "read_pos rd art pos = Inr (Some inst)"
  shows "(\<exists>lo hi.
      inst_paragraphs inst =
        title_part art @
        map sec_text (take 1 (filter is_paragraph (parsed_section art))) @
        paragraph_texts (parsed_section art) lo pos @
        paragraph_texts (parsed_section art)
          (nat (max (anchor_index (parsed_section art) + 1) (int pos + 1))) hi \<and>
      anchor_index (parsed_section art) < int lo \<and> hi \<le> length (parsed_section art)) \<and>
    (\<exists>idx. sorted_wrt (<) idx \<and>
      list_all (\<lambda>n. n < length (parsed_section art) \<and>
                  is_paragraph (parsed_section art ! n)) idx \<and>
      inst_paragraphs inst =
        title_part art @ map (\<lambda>n. sec_text (parsed_section art ! n)) idx)"
proof -
  let ?ss = "parsed_section art" and ?k = "anchor_index (parsed_section art)"
  from read_pos_SomeD [OF assms] obtain cw where
    cw: "build_context (rare_names rd) (count_tokens rd) art pos = Inr (Some cw)"
    and ps: "inst_paragraphs inst =
             cw_paragraphs cw @ before (cw_window cw) @ after (cw_window cw)"
    by blast
  from build_context_SomeD [OF cw]
  have pos: "pos < length ?ss"
    and "cw = window_result (rare_names rd) art (strip (sec_text (?ss ! pos))) (cw_window cw)"
    by simp_all
  then have "cw_paragraphs cw = cw_paragraphs
      (window_result (rare_names rd) art (strip (sec_text (?ss ! pos))) (cw_window cw))"
    by simp
  then have hd: "cw_paragraphs cw = title_part art @ anchor_part ?ss"
    by (simp add: window_result_def)
  define lo where "lo = nat (max (?k + 1) (w_i (cw_window cw) + 1))"
  define lo' where "lo' = nat (max (?k + 1) (int pos + 1))"
  define hi where "hi = nat (min (int (length ?ss)) (w_j (cw_window cw)))"
  from build_context_inv [OF cw]
  have b: "before (cw_window cw) = paragraph_texts ?ss lo pos"
    and a: "after (cw_window cw) = paragraph_texts ?ss lo' hi"
    by (simp_all add: window_inv_def lo_def lo'_def hi_def)
  have lo: "?k < int lo" unfolding lo_def by arith
  have hi: "hi \<le> length ?ss" unfolding hi_def by simp
  from ps hd b a have shape: "inst_paragraphs inst =
      title_part art @ anchor_part ?ss @ paragraph_texts ?ss lo pos @
      paragraph_texts ?ss lo' hi"
    by simp
  then have "inst_paragraphs inst =
        title_part art @ map sec_text (take 1 (filter is_paragraph ?ss)) @
        paragraph_texts ?ss lo pos @
        paragraph_texts ?ss (nat (max (?k + 1) (int pos + 1))) hi \<and>
      ?k < int lo \<and> hi \<le> length ?ss"
    using lo hi by (simp add: anchor_part_first lo'_def)
  then have first: "\<exists>lo hi. inst_paragraphs inst =
        title_part art @ map sec_text (take 1 (filter is_paragraph ?ss)) @
        paragraph_texts ?ss lo pos @
        paragraph_texts ?ss (nat (max (?k + 1) (int pos + 1))) hi \<and>
      ?k < int lo \<and> hi \<le> length ?ss"
    by blast
  from positional_order [OF pos lo hi lo'_def] obtain idx where
    "sorted_wrt (<) idx"
    "list_all (\<lambda>n. n < length ?ss \<and> is_paragraph (?ss ! n)) idx"
    "anchor_part ?ss @ paragraph_texts ?ss lo pos @ paragraph_texts ?ss lo' hi =
       map (\<lambda>n. sec_text (?ss ! n)) idx"
    by blast
  with shape have "\<exists>idx. sorted_wrt (<) idx \<and>
      list_all (\<lambda>n. n < length ?ss \<and> is_paragraph (?ss ! n)) idx \<and>
      inst_paragraphs inst = title_part art @ map (\<lambda>n. sec_text (?ss ! n)) idx"
    by auto
  with first show ?thesis by (rule conjI)
qed

text \<open>The specification's scenario: headline X dies, sections A (paragraph), an image at
  position 1 and B (paragraph) give the paragraphs X dies, A, B.\<close>

theorem context_paragraph_order_witness:
  "read_pos \<lparr>rare_names = None, image_dir = ''img'', count_tokens = (\<lambda>_. 3),
             image_open = (\<lambda>_. Some (0 :: nat))\<rparr>
     (mk_article (Some ''X dies'')
        [mk_section ''paragraph'' ''A'' [], mk_section ''image'' ''cap'' ''h'',
         mk_section ''paragraph'' ''B'' []] [1]) 1 =
   Inr (Some \<lparr>inst_paragraphs = [''X dies'', ''A'', ''B''],
              inst_name_indices = [[], [], []], inst_caption_name_indices = [],
              inst_image = 0, inst_caption = ''cap'', inst_image_path = ''img/h.jpg'',
              inst_web_url = ''url'', inst_pos = 1\<rparr>) \<and>
   (\<exists>lo hi.
      [''X dies'', ''A'', ''B''] =
        title_part (mk_article (Some ''X dies'')
          [mk_section ''paragraph'' ''A'' [], mk_section ''image'' ''cap'' ''h'',
           mk_section ''paragraph'' ''B'' []] [1]) @
        map sec_text (take 1 (filter is_paragraph
          [mk_section ''paragraph'' ''A'' [], mk_section ''image'' ''cap'' ''h'',
           mk_section ''paragraph'' ''B'' []])) @
        paragraph_texts
          [mk_section ''paragraph'' ''A'' [], mk_section ''image'' ''cap'' ''h'',
           mk_section ''paragraph'' ''B'' []] lo 1 @
        paragraph_texts
          [mk_section ''paragraph'' ''A'' [], mk_section ''image'' ''cap'' ''h'',
           mk_section ''paragraph'' ''B'' []]
          (nat (max (anchor_index
             [mk_section ''paragraph'' ''A'' [], mk_section ''image'' ''cap'' ''h'',
              mk_section ''paragraph'' ''B'' []] + 1) (int 1 + 1))) hi \<and>
      anchor_index
        [mk_section ''paragraph'' ''A'' [], mk_section ''image'' ''cap'' ''h'',
         mk_section ''paragraph'' ''B'' []] < int lo \<and>
      hi \<le> length
        [mk_section ''paragraph'' ''A'' [], mk_section ''image'' ''cap'' ''h'',
         mk_section ''paragraph'' ''B'' []]) \<and>
   (\<exists>idx. sorted_wrt (<) idx \<and>
      list_all (\<lambda>n. n < length
          [mk_section ''paragraph'' ''A'' [], mk_section ''image'' ''cap'' ''h'',
           mk_section ''paragraph'' ''B'' []] \<and>
        is_paragraph
          ([mk_section ''paragraph'' ''A'' [], mk_section ''image'' ''cap'' ''h'',
            mk_section ''paragraph'' ''B'' []] ! n)) idx \<and>
      [''X dies'', ''A'', ''B''] =
        title_part (mk_article (Some ''X dies'')
          [mk_section ''paragraph'' ''A'' [], mk_section ''image'' ''cap'' ''h'',
           mk_section ''paragraph'' ''B'' []] [1]) @
        map (\<lambda>n. sec_text
          ([mk_section ''paragraph'' ''A'' [], mk_section ''image'' ''cap'' ''h'',
            mk_section ''paragraph'' ''B'' []] ! n)) idx)"
proof -
  let ?rd = "\<lparr>rare_names = None, image_dir = ''img'', count_tokens = (\<lambda>_. 3),
             image_open = (\<lambda>_. Some (0 :: nat))\<rparr>"
  let ?ss = "[mk_section ''paragraph'' ''A'' [], mk_section ''image'' ''cap'' ''h'',
         mk_section ''paragraph'' ''B'' []]"
  let ?art = "mk_article (Some ''X dies'') ?ss [1]"
  let ?inst = "\<lparr>inst_paragraphs = [''X dies'', ''A'', ''B''],
              inst_name_indices = [[], [], []], inst_caption_name_indices = [],
              inst_image = 0 :: nat, inst_caption = ''cap'', inst_image_path = ''img/h.jpg'',
              inst_web_url = ''url'', inst_pos = 1\<rparr>"
  have r: "read_pos ?rd ?art 1 = Inr (Some ?inst)"
    by (simp add: read_pos_def image_path_of_def path_join_def eval_window)
  from context_paragraph_order [OF r]
  have e: "(\<exists>lo hi.
      [''X dies'', ''A'', ''B''] =
        title_part ?art @ map sec_text (take 1 (filter is_paragraph ?ss)) @
        paragraph_texts ?ss lo 1 @
        paragraph_texts ?ss (nat (max (anchor_index ?ss + 1) (int 1 + 1))) hi \<and>
      anchor_index ?ss < int lo \<and> hi \<le> length ?ss) \<and>
    (\<exists>idx. sorted_wrt (<) idx \<and>
      list_all (\<lambda>n. n < length ?ss \<and> is_paragraph (?ss ! n)) idx \<and>
      [''X dies'', ''A'', ''B''] =
        title_part ?art @ map (\<lambda>n. sec_text (?ss ! n)) idx)"
    by (simp only: mk_article_simps nyt_instance.select_convs)
  show ?thesis by (rule conjI [OF r e])
qed





end
